theory Spec2Isabelle
  imports Main "HOL-Library.Sublist"
begin

section \<open>The document tree and its queries\<close>

text \<open>
  The scraper reads pages through a parsed document tree. A tree node is either a run of
  text or an element with a tag name, an attribute dictionary and its children in document
  order. Attribute values are kept as the strings of the markup; the parser splits the
  value of \<open>class\<close> at whitespace, which \<open>attr_matches\<close> does when it compares.
  Strings are lists of characters with codes below 256.
\<close>

datatype node =
    Text string
  | Tag (name: string) (attrs: "(string \<times> string) list") (contents: "node list")

datatype error = KeyError | ValueError | OSError

text \<open>Python's \<open>str.isspace\<close> on the characters with codes below 256.\<close>

definition is_space :: "char \<Rightarrow> bool" where
  "is_space c = (of_char c \<in> set [9, 10, 11, 12, 13, 28, 29, 30, 31, 32, 133, 160 :: nat])"

text \<open>\<open>str.strip()\<close>: leading and trailing whitespace removed.\<close>

definition strip :: "string \<Rightarrow> string" where
  "strip s = rev (dropWhile is_space (rev (dropWhile is_space s)))"

text \<open>The maximal runs of non-whitespace characters of a string, in order.\<close>

fun split_ws :: "string \<Rightarrow> string \<Rightarrow> string list" where
  "split_ws cur [] = (if cur = [] then [] else [cur])"
| "split_ws cur (c # cs) =
     (if is_space c then (if cur = [] then split_ws [] cs else cur # split_ws [] cs)
      else split_ws (cur @ [c]) cs)"

fun join_space :: "string list \<Rightarrow> string" where
  "join_space [] = []"
| "join_space [x] = x"
| "join_space (x # y # ys) = x @ CHR '' '' # join_space (y # ys)"

text \<open>
  One attribute of an element against the value searched for: a \<open>class\<close> attribute
  matches when one of its classes is the value, or when its classes joined by single
  spaces are; any other attribute matches when its value is the one searched for.
\<close>

definition attr_matches :: "string \<Rightarrow> string \<Rightarrow> string \<Rightarrow> bool" where
  "attr_matches k v s =
     (if k = ''class''
      then s \<in> set (split_ws [] v) \<or> join_space (split_ws [] v) = s
      else v = s)"

text \<open>\<open>Tag.get(key)\<close>: the value of an attribute, or nothing.\<close>

definition get_attr :: "node \<Rightarrow> string \<Rightarrow> string option" where
  "get_attr el k = (case el of Text _ \<Rightarrow> None | Tag _ as _ \<Rightarrow> map_of as k)"

definition matches :: "string \<Rightarrow> (string \<times> string) list \<Rightarrow> node \<Rightarrow> bool" where
  "matches tg wanted el =
     (case el of
        Text _ \<Rightarrow> False
      | Tag nm as _ \<Rightarrow>
          nm = tg \<and>
          list_all (\<lambda>(k, s). case map_of as k of None \<Rightarrow> False | Some v \<Rightarrow> attr_matches k v s)
            wanted)"

text \<open>The nodes below a node, in document order (the node itself is not among them).\<close>

fun descendants :: "node \<Rightarrow> node list" where
  "descendants (Text s) = []"
| "descendants (Tag nm as cs) = concat (map (\<lambda>c. c # descendants c) cs)"

text \<open>\<open>find_all(tag, attrs)\<close> and \<open>find(tag, attrs)\<close>: all matches, and the first one.\<close>

definition find_all :: "node \<Rightarrow> string \<Rightarrow> (string \<times> string) list \<Rightarrow> node list" where
  "find_all el tg wanted = filter (matches tg wanted) (descendants el)"

definition find_first :: "node \<Rightarrow> string \<Rightarrow> (string \<times> string) list \<Rightarrow> node option" where
  "find_first el tg wanted = (case find_all el tg wanted of [] \<Rightarrow> None | x # _ \<Rightarrow> Some x)"

text \<open>\<open>.text\<close>: the text runs below an element, concatenated.\<close>

fun get_text :: "node \<Rightarrow> string" where
  "get_text (Text s) = s"
| "get_text (Tag nm as cs) = concat (map get_text cs)"

section \<open>Review extraction\<close>

definition selectors :: "(string \<times> (string \<times> string) list) list" where
  "selectors =
     [(''div'', [(''data-hook'', ''review-collapsed'')]),
      (''span'', [(''data-hook'', ''review-body'')]),
      (''span'', [(''class'', ''a-size-base review-text'')])]"

text \<open>
  The text taken from one matched element: for the \<open>div\<close> selector the stripped text of
  the first \<open>span\<close> below it (the empty string when there is none), otherwise the
  stripped text of the element.
\<close>

definition element_text :: "string \<Rightarrow> node \<Rightarrow> string" where
  "element_text tg element =
     (if tg = ''div''
      then (case find_first element ''span'' [] of
              Some span \<Rightarrow> strip (get_text span)
            | None \<Rightarrow> [])
      else strip (get_text element))"

text \<open>The inner loop: the non-empty texts of the matched elements are appended in order.\<close>

fun collect_texts :: "string \<Rightarrow> node list \<Rightarrow> string list \<Rightarrow> string list" where
  "collect_texts tg [] page_reviews = page_reviews"
| "collect_texts tg (element # rest) page_reviews =
     (let text = element_text tg element
      in collect_texts tg rest (if text \<noteq> [] then page_reviews @ [text] else page_reviews))"

text \<open>The outer loop over the selectors, left at the first selector with a match.\<close>

fun try_selectors :: "(string \<times> (string \<times> string) list) list \<Rightarrow> node \<Rightarrow> string list" where
  "try_selectors [] soup = []"
| "try_selectors ((tg, wanted) # rest) soup =
     (let review_elements = find_all soup tg wanted
      in if review_elements \<noteq> [] then collect_texts tg review_elements []
         else try_selectors rest soup)"

definition extract_reviews_from_page :: "node option \<Rightarrow> string list" where
  "extract_reviews_from_page soup =
     (case soup of None \<Rightarrow> [] | Some s \<Rightarrow> try_selectors selectors s)"

section \<open>Next-page discovery\<close>

text \<open>
  The href of the next page is resolved by the standard library's \<open>urljoin\<close>, which
  gives the joined locator or raises (a \<open>ValueError\<close> on a malformed network
  location). Next-page discovery takes the resolver as an argument; the library's function
  is \<open>urllib_urljoin\<close> below.
\<close>

type_synonym resolver = "string \<Rightarrow> string \<Rightarrow> error + string"

definition site_root :: string where
  "site_root = ''https://www.amazon.com''"

text \<open>
  Method 1: the link inside the first \<open>li\<close> of class \<open>a-last\<close>, when it has a
  non-empty href.
\<close>

definition next_button_href :: "node \<Rightarrow> string option" where
  "next_button_href soup =
     (case find_first soup ''li'' [(''class'', ''a-last'')] of
        None \<Rightarrow> None
      | Some next_page_li \<Rightarrow>
          (case find_first next_page_li ''a'' [] of
             None \<Rightarrow> None
           | Some next_page_a \<Rightarrow>
               (case get_attr next_page_a ''href'' of
                  None \<Rightarrow> None
                | Some href \<Rightarrow> if href \<noteq> [] then Some href else None)))"

text \<open>
  Method 2: the loop over the links of the pagination bar. The first link whose text
  contains \<open>Next\<close> is indexed at \<open>href\<close>, which raises \<open>KeyError\<close> when the link has
  no such attribute.
\<close>

fun scan_next_links :: "resolver \<Rightarrow> node list \<Rightarrow> error + string option" where
  "scan_next_links urljoin [] = Inr None"
| "scan_next_links urljoin (link # rest) =
     (if get_text link \<noteq> [] \<and> sublist ''Next'' (get_text link)
      then (case get_attr link ''href'' of
              None \<Rightarrow> Inl KeyError
            | Some href \<Rightarrow> map_sum id Some (urljoin site_root href))
      else scan_next_links urljoin rest)"

definition find_next_page_url :: "resolver \<Rightarrow> node option \<Rightarrow> error + string option" where
  "find_next_page_url urljoin soup =
     (case soup of
        None \<Rightarrow> Inr None
      | Some s \<Rightarrow>
          (case next_button_href s of
             Some href \<Rightarrow> map_sum id Some (urljoin site_root href)
           | None \<Rightarrow>
               (case find_first s ''div'' [(''id'', ''cm_cr-pagination_bar'')] of
                  None \<Rightarrow> Inr None
                | Some pagination \<Rightarrow>
                    scan_next_links urljoin
                      (find_all pagination ''a'' [(''class'', ''a-link-normal'')]))))"

section \<open>The scraper and its environment\<close>

record scraper =
  product_id :: string
  base_url :: string
  max_pages :: int
  delay_range :: "int \<times> int"
  reviews :: "string list"

text \<open>The constructor \<open>__init__(product_id, max_pages, delay_range)\<close>.\<close>

definition init :: "string \<Rightarrow> int \<Rightarrow> int \<times> int \<Rightarrow> scraper" where
  "init pid mp dr =
     \<lparr>product_id = ''B09G9FPHY6'',
      base_url = ''https://www.amazon.com/product-reviews/'' @ pid,
      max_pages = mp,
      delay_range = dr,
      reviews = []\<rparr>"

text \<open>
  What one request does is the environment's: the body of the \<open>try\<close> in \<open>_fetch_page\<close>
  either raises, or gives a response with a status code and the document tree parsed from
  its body. The outcome may depend on the locator and on how many requests were made
  before. \<open>_random_delay\<close> draws a floating-point delay and sleeps; the sleep raises
  \<open>ValueError\<close> on a negative delay, which is the environment's to say as well.
\<close>

datatype fetch_outcome = Raised | Response int node

record world =
  session_get :: "nat \<Rightarrow> string \<Rightarrow> fetch_outcome"
  urljoin :: resolver
  delay_raises :: "nat \<Rightarrow> bool"

definition fetch_page :: "world \<Rightarrow> nat \<Rightarrow> string \<Rightarrow> node option" where
  "fetch_page w n url =
     (case session_get w n url of
        Raised \<Rightarrow> None
      | Response status_code soup \<Rightarrow>
          if status_code = 200 then Some soup
          else if status_code = 503 \<or> status_code = 429 then None
          else None)"

text \<open>
  The state of the loop in \<open>scrape\<close>: its two local variables, the review list of the
  object, and the locators requested so far, in order.
\<close>

record crawl =
  current_url :: string
  page_num :: int
  collected :: "string list"
  fetched :: "string list"

datatype step = Continue crawl | Break crawl | Raise crawl error

text \<open>One run of the loop body, from the fetch to the \<open>break\<close> or the end of the body.\<close>

definition loop_body :: "world \<Rightarrow> crawl \<Rightarrow> step" where
  "loop_body w c =
     (let c1 = c\<lparr>fetched := fetched c @ [current_url c]\<rparr>
      in case fetch_page w (length (fetched c)) (current_url c) of
           None \<Rightarrow> Break c1
         | Some soup \<Rightarrow>
             (let c2 = c1\<lparr>collected := collected c1 @ extract_reviews_from_page (Some soup)\<rparr>
              in case find_next_page_url (urljoin w) (Some soup) of
                   Inl e \<Rightarrow> Raise c2 e
                 | Inr next_url \<Rightarrow>
                     (case next_url of
                        None \<Rightarrow> Break c2
                      | Some u \<Rightarrow>
                          if u \<noteq> [] \<and> u \<noteq> current_url c
                          then (let c3 = c2\<lparr>current_url := u, page_num := page_num c + 1\<rparr>
                                in if delay_raises w (length (fetched c)) then Raise c3 ValueError
                                   else Continue c3)
                          else Break c2)))"

lemma loop_body_Continue_page_num:
  "loop_body w c = Continue c' \<Longrightarrow> page_num c' = page_num c + 1"
  by (auto simp: loop_body_def Let_def split: option.splits sum.splits if_splits)

text \<open>
  The \<open>while\<close> loop. The result is the state the loop is left in, and the exception
  that leaves \<open>scrape\<close>, if any.
\<close>

function scrape_loop :: "world \<Rightarrow> int \<Rightarrow> crawl \<Rightarrow> crawl \<times> error option" where
  "scrape_loop w mp c =
     (if current_url c \<noteq> [] \<and> page_num c \<le> mp
      then (case loop_body w c of
              Continue c' \<Rightarrow> scrape_loop w mp c'
            | Break c' \<Rightarrow> (c', None)
            | Raise c' e \<Rightarrow> (c', Some e))
      else (c, None))"
  by pat_completeness auto
termination
  by (relation "measure (\<lambda>(w, mp, c). nat (mp + 1 - page_num c))")
    (auto dest: loop_body_Continue_page_num)

declare scrape_loop.simps [simp del]

definition start :: "scraper \<Rightarrow> crawl" where
  "start s = \<lparr>current_url = base_url s, page_num = 1, collected = reviews s, fetched = []\<rparr>"

definition scrape :: "world \<Rightarrow> scraper \<Rightarrow> crawl \<times> error option" where
  "scrape w s = scrape_loop w (max_pages s) (start s)"

text \<open>What \<open>scrape()\<close> gives its caller: the review list, or the exception.\<close>

definition scrape_result :: "world \<Rightarrow> scraper \<Rightarrow> error + string list" where
  "scrape_result w s = (case scrape w s of (c, None) \<Rightarrow> Inr (collected c) | (c, Some e) \<Rightarrow> Inl e)"

section \<open>Persistence\<close>

text \<open>
  A file system holds the text of each file; a path may or may not be openable for
  writing. \<open>open(filename, "w")\<close> truncates the file or raises \<open>OSError\<close>.
\<close>

record filesystem =
  files :: "string \<rightharpoonup> string"
  can_open :: "string \<Rightarrow> bool"

text \<open>\<open>str(i)\<close> for a natural number: its decimal digits.\<close>

fun str_nat :: "nat \<Rightarrow> string" where
  "str_nat n =
     (if n < 10 then [''0123456789'' ! n] else str_nat (n div 10) @ [''0123456789'' ! (n mod 10)])"

declare str_nat.simps [simp del]

definition newline :: string where
  "newline = [CHR 0x0A]"

text \<open>The text of one \<open>f.write\<close>: the numbered review and its delimiter line.\<close>

definition review_block :: "nat \<Rightarrow> string \<Rightarrow> string" where
  "review_block i review =
     ''Review '' @ str_nat i @ '':'' @ newline @ review @ newline @ newline
       @ replicate 50 CHR ''='' @ newline @ newline"

text \<open>The loop over \<open>enumerate(self.reviews, 1)\<close>; \<open>f\<close> is the text written so far.\<close>

fun write_reviews :: "nat \<Rightarrow> string list \<Rightarrow> string \<Rightarrow> string" where
  "write_reviews i [] f = f"
| "write_reviews i (review # rest) f = write_reviews (i + 1) rest (f @ review_block i review)"

definition save_to_file :: "filesystem \<Rightarrow> scraper \<Rightarrow> string \<Rightarrow> error + filesystem" where
  "save_to_file fs s filename =
     (if can_open fs filename
      then Inr (fs\<lparr>files := (files fs)(filename \<mapsto> write_reviews 1 (reviews s) [])\<rparr>)
      else Inl OSError)"

section \<open>Notions the properties are stated with\<close>

text \<open>The state a run of the loop body leaves, however it ends.\<close>

fun step_state :: "step \<Rightarrow> crawl" where
  "step_state (Continue c) = c"
| "step_state (Break c) = c"
| "step_state (Raise c e) = c"

text \<open>
  A locator is absolute when it starts with a scheme: a letter, then letters, digits,
  \<open>+\<close>, \<open>-\<close> or \<open>.\<close>, up to a colon.
\<close>

definition is_alpha :: "char \<Rightarrow> bool" where
  "is_alpha c =
     ((65 \<le> (of_char c :: nat) \<and> (of_char c :: nat) \<le> 90) \<or>
      (97 \<le> (of_char c :: nat) \<and> (of_char c :: nat) \<le> 122))"

definition scheme_char :: "char \<Rightarrow> bool" where
  "scheme_char c =
     (is_alpha c \<or> (48 \<le> (of_char c :: nat) \<and> (of_char c :: nat) \<le> 57) \<or>
      c \<in> set ''+-.'')"

definition is_absolute :: "string \<Rightarrow> bool" where
  "is_absolute u =
     (let scheme = takeWhile (\<lambda>c. c \<noteq> CHR '':'') u
      in scheme \<noteq> [] \<and> length scheme < length u \<and> is_alpha (hd scheme) \<and>
         list_all scheme_char scheme)"

section \<open>The resolver of the standard library\<close>

text \<open>
  The program resolves hrefs with \<open>urllib.parse.urljoin\<close>. The definitions of this
  section follow that module as it is in CPython 3.11, on strings of characters with codes
  below 256.
\<close>











text \<open>The six components of \<open>urlparse\<close>.\<close>

record url_parts =
  scheme :: string
  netloc :: string
  path :: string
  params :: string
  query :: string
  fragment :: string










section \<open>Example pages and environments\<close>

text \<open>
  A resolver for the examples: an empty reference gives the base, an absolute one is kept,
  and any other is put below the base.
\<close>

definition example_join :: resolver where
  "example_join base url =
     Inr (if url = [] then base
          else if is_absolute url then url
          else if prefix ''/'' url then base @ url
          else base @ ''/'' @ url)"

text \<open>Three matching elements, one of them with whitespace only.\<close>

definition page_three :: node where
  "page_three =
     Tag ''html'' [] [Tag ''body'' []
       [Tag ''span'' [(''data-hook'', ''review-body'')] [Text ''Great phone''],
        Tag ''span'' [(''data-hook'', ''review-body'')] [Text ''  '', Tag ''br'' [] []],
        Tag ''div'' [] [Tag ''span'' [(''data-hook'', ''review-body'')] [Text '' Bad battery '']]]]"

text \<open>
  A page that the first and the second selector match; the element of the first selector
  has no \<open>span\<close> below it.
\<close>

definition page_both :: node where
  "page_both =
     Tag ''html'' [] [Tag ''body'' []
       [Tag ''span'' [(''data-hook'', ''review-body'')] [Text ''Good value''],
        Tag ''div'' [(''data-hook'', ''review-collapsed'')] [Text ''Read more'']]]"

text \<open>A pagination bar whose \<open>Next\<close> link has no href, and no \<open>a-last\<close> item.\<close>

definition page_no_href :: node where
  "page_no_href =
     Tag ''html'' [] [Tag ''body'' []
       [Tag ''div'' [(''id'', ''cm_cr-pagination_bar'')]
          [Tag ''a'' [(''class'', ''a-link-normal''), (''href'', ''/p/1'')] [Text ''Previous''],
           Tag ''a'' [(''class'', ''a-link-normal disabled'')] [Text ''Next page'']]]]"

text \<open>A first page with one review and a relative link to the second page.\<close>

definition page_one :: node where
  "page_one =
     Tag ''html'' [] [Tag ''body'' []
       [Tag ''span'' [(''data-hook'', ''review-body'')] [Text ''Works well''],
        Tag ''ul'' [] [Tag ''li'' [(''class'', ''a-last'')]
          [Tag ''a'' [(''href'', ''/product-reviews/B0?pageNumber=2'')] [Text ''Next page'']]]]]"

text \<open>A last page: one review, and an \<open>a-last\<close> item without a link.\<close>

definition page_last :: node where
  "page_last =
     Tag ''html'' [] [Tag ''body'' []
       [Tag ''span'' [(''data-hook'', ''review-body'')] [Text ''Stopped working''],
        Tag ''ul'' [] [Tag ''li'' [(''class'', ''a-disabled a-last'')] [Text ''Next page'']]]]"

text \<open>A page whose next link points at the page itself.\<close>

definition page_self :: node where
  "page_self =
     Tag ''html'' [] [Tag ''body'' []
       [Tag ''span'' [(''data-hook'', ''review-body'')] [Text ''Fine''],
        Tag ''ul'' [] [Tag ''li'' [(''class'', ''a-last'')]
          [Tag ''a'' [(''href'', ''/product-reviews/B0'')] [Text ''Next page'']]]]]"



text \<open>Every request is answered with the same status and page; no sleep raises.\<close>

definition constant_world :: "int \<Rightarrow> node \<Rightarrow> world" where
  "constant_world status_code page =
     \<lparr>session_get = (\<lambda>n url. Response status_code page),
      urljoin = example_join,
      delay_raises = (\<lambda>n. False)\<rparr>"

text \<open>The first request gives \<open>page_one\<close>; every later one is rate limited.\<close>

definition limited_world :: world where
  "limited_world =
     \<lparr>session_get = (\<lambda>n url. if n = 0 then Response 200 page_one else Response 429 (Text [])),
      urljoin = example_join,
      delay_raises = (\<lambda>n. False)\<rparr>"

text \<open>The first request gives \<open>page_one\<close>, the second \<open>page_last\<close>.\<close>

definition two_page_world :: world where
  "two_page_world =
     \<lparr>session_get = (\<lambda>n url. if n = 0 then Response 200 page_one else Response 200 page_last),
      urljoin = example_join,
      delay_raises = (\<lambda>n. False)\<rparr>"

definition example_fs :: filesystem where
  "example_fs = \<lparr>files = [''amazon_reviews.txt'' \<mapsto> ''old text''], can_open = (\<lambda>p. True)\<rparr>"

section \<open>Properties of extraction\<close>

lemma collect_texts_eq:
  "collect_texts tg els acc = acc @ filter (\<lambda>t. t \<noteq> []) (map (element_text tg) els)"
  by (induction els arbitrary: acc) (simp_all add: Let_def)


lemma strip_ends:
  assumes "strip s \<noteq> []"
  shows "\<not> is_space (hd (strip s))" and "\<not> is_space (last (strip s))"
proof -
  let ?d = "dropWhile is_space s"
  let ?e = "dropWhile is_space (rev ?d)"
  from assms have e: "?e \<noteq> []" by (simp add: strip_def)
  then have d: "?d \<noteq> []" by (metis dropWhile.simps(1) rev.simps(1))
  have "last (strip s) = hd ?e" by (simp only: strip_def last_rev)
  then show "\<not> is_space (last (strip s))" using e hd_dropWhile[of is_space "rev ?d"] by simp
  have "hd (strip s) = last ?e" by (simp only: strip_def hd_rev)
  also have "last ?e = last (rev ?d)"
    by (metis e append_Nil2 last_appendR takeWhile_dropWhile_id)
  also have "\<dots> = hd ?d" by (simp only: last_rev)
  finally show "\<not> is_space (hd (strip s))" using d hd_dropWhile[of is_space s] by simp
qed

lemma dropWhile_id: "xs \<noteq> [] \<Longrightarrow> \<not> P (hd xs) \<Longrightarrow> dropWhile P xs = xs"
  by (cases xs) simp_all

lemma strip_Nil: "strip [] = []"
  by (simp add: strip_def)

lemma strip_idem: "strip (strip s) = strip s"
proof (cases "strip s = []")
  case True
  then show ?thesis by (simp add: strip_Nil)
next
  case False
  let ?t = "strip s"
  have 1: "dropWhile is_space ?t = ?t" using False strip_ends(1)[OF False] by (rule dropWhile_id)
  have "rev ?t \<noteq> []" using False by simp
  moreover have "\<not> is_space (hd (rev ?t))" using False strip_ends(2)[OF False] by (simp add: hd_rev)
  ultimately have 2: "dropWhile is_space (rev ?t) = rev ?t" by (rule dropWhile_id)
  show ?thesis unfolding strip_def[of "strip s"] 1 2 by simp
qed

lemma strip_not_all_space: "strip s \<noteq> [] \<Longrightarrow> \<not> list_all is_space (strip s)"
  using strip_ends(1)[of s] by (cases "strip s") auto

lemma try_selectors_first_match:
  assumes "i < length sels" and "sels ! i = (tg, wanted)" and "find_all soup tg wanted \<noteq> []"
    and "\<forall>j<i. find_all soup (fst (sels ! j)) (snd (sels ! j)) = []"
  shows "try_selectors sels soup =
         filter (\<lambda>t. t \<noteq> []) (map (element_text tg) (find_all soup tg wanted))"
  using assms
proof (induction sels arbitrary: i)
  case Nil
  then show ?case by simp
next
  case (Cons sel sels)
  obtain tg0 w0 where sel: "sel = (tg0, w0)" by (cases sel)
  show ?case
  proof (cases i)
    case 0
    with Cons.prems sel show ?thesis by (simp add: collect_texts_eq)
  next
    case (Suc k)
    from Cons.prems(4) Suc have first: "find_all soup tg0 w0 = []"
      using sel by (metis fst_conv nth_Cons_0 snd_conv zero_less_Suc)
    have rest: "\<forall>j<k. find_all soup (fst (sels ! j)) (snd (sels ! j)) = []"
      using Cons.prems(4) Suc by (metis Suc_less_eq nth_Cons_Suc)
    have "try_selectors sels soup =
          filter (\<lambda>t. t \<noteq> []) (map (element_text tg) (find_all soup tg wanted))"
      using Cons.IH[of k] Cons.prems Suc rest by simp
    with first sel show ?thesis by simp
  qed
qed

lemma try_selectors_texts:
  "t \<in> set (try_selectors sels soup) \<Longrightarrow> t \<noteq> [] \<and> (\<exists>tg el. t = element_text tg el)"
proof (induction sels)
  case Nil
  then show ?case by simp
next
  case (Cons sel sels)
  obtain tg0 w0 where sel: "sel = (tg0, w0)" by (cases sel)
  show ?case
  proof (cases "find_all soup tg0 w0 = []")
    case True
    with Cons sel show ?thesis by simp
  next
    case False
    with Cons.prems sel show ?thesis by (auto simp: collect_texts_eq)
  qed
qed

lemma element_text_strip: "strip (element_text tg el) = element_text tg el"
  by (simp add: element_text_def strip_idem strip_Nil split: option.splits)


lemmas tree_eval =
  find_all_def find_first_def matches_def attr_matches_def get_attr_def is_space_def
  strip_def element_text_def selectors_def extract_reviews_from_page_def

text \<open>
  Claim C5. When several selectors match a page, extraction returns the texts of the
  first selector, in the fixed order, that matches at least one element, and of no other:
  the result is the list of the non-empty texts of that selector's elements, whatever the
  later selectors match, and also when that list is empty.
\<close>

theorem first_matching_selector_wins:
  assumes "i < length selectors"
    and "selectors ! i = (tg, wanted)"
    and "find_all soup tg wanted \<noteq> []"
    and "\<forall>j<i. find_all soup (fst (selectors ! j)) (snd (selectors ! j)) = []"
  shows "extract_reviews_from_page (Some soup) =
         filter (\<lambda>t. t \<noteq> []) (map (element_text tg) (find_all soup tg wanted))"
  using try_selectors_first_match[OF assms] by (simp add: extract_reviews_from_page_def)

text \<open>
  On \<open>page_both\<close> the first selector matches an element that gives no text and the
  second one matches a review: nothing is returned.
\<close>

theorem first_matching_selector_wins_witness:
  "find_all page_both ''span'' [(''data-hook'', ''review-body'')] \<noteq> [] \<and>
   extract_reviews_from_page (Some page_both) = []"
proof -
  have h1: "0 < length selectors" by (simp add: selectors_def)
  have h2: "selectors ! 0 = (''div'', [(''data-hook'', ''review-collapsed'')])"
    by (simp add: selectors_def)
  have h3: "find_all page_both ''div'' [(''data-hook'', ''review-collapsed'')] \<noteq> []"
    by (simp add: page_both_def tree_eval)
  have h4: "\<forall>j<0. find_all page_both (fst (selectors ! j)) (snd (selectors ! j)) = []"
    by simp
  have "extract_reviews_from_page (Some page_both) =
        filter (\<lambda>t. t \<noteq> [])
          (map (element_text ''div'')
            (find_all page_both ''div'' [(''data-hook'', ''review-collapsed'')]))"
    by (rule first_matching_selector_wins[OF h1 h2 h3 h4])
  also have "\<dots> = []"
    by (simp add: page_both_def tree_eval)
  finally have "extract_reviews_from_page (Some page_both) = []" .
  moreover have "find_all page_both ''span'' [(''data-hook'', ''review-body'')] \<noteq> []"
    by (simp add: page_both_def tree_eval)
  ultimately show ?thesis by simp
qed

text \<open>
  Claim C8. Every text that extraction returns is non-empty, is its own stripped form and
  is not made of whitespace only; and the number of texts returned is the number of
  elements of the selector in use whose stripped text is non-empty, so that three matched
  elements of which one has whitespace only give two reviews.
\<close>

theorem extracted_texts_nonempty:
  "(\<forall>t \<in> set (extract_reviews_from_page soup).
      t \<noteq> [] \<and> strip t = t \<and> \<not> list_all is_space t) \<and>
   (i < length selectors \<and> selectors ! i = (tg, wanted) \<and> find_all page tg wanted \<noteq> [] \<and>
    (\<forall>j<i. find_all page (fst (selectors ! j)) (snd (selectors ! j)) = []) \<longrightarrow>
    length (extract_reviews_from_page (Some page)) =
    length (filter (\<lambda>el. element_text tg el \<noteq> []) (find_all page tg wanted)))"
proof (intro conjI ballI impI)
  fix t assume t: "t \<in> set (extract_reviews_from_page soup)"
  then obtain s where "soup = Some s" and "t \<in> set (try_selectors selectors s)"
    by (cases soup) (auto simp: extract_reviews_from_page_def)
  then obtain tg' el where ne: "t \<noteq> []" and eq: "t = element_text tg' el"
    using try_selectors_texts by blast
  have st: "strip t = t" using eq element_text_strip by simp
  from ne st strip_not_all_space[of t] have "\<not> list_all is_space t" by simp
  with ne st show "t \<noteq> []" and "strip t = t" and "\<not> list_all is_space t" by simp_all
next
  assume h: "i < length selectors \<and> selectors ! i = (tg, wanted) \<and> find_all page tg wanted \<noteq> [] \<and>
    (\<forall>j<i. find_all page (fst (selectors ! j)) (snd (selectors ! j)) = [])"
  then have "try_selectors selectors page =
      filter (\<lambda>t. t \<noteq> []) (map (element_text tg) (find_all page tg wanted))"
    using try_selectors_first_match[of i selectors tg wanted page] by blast
  then show "length (extract_reviews_from_page (Some page)) =
    length (filter (\<lambda>el. element_text tg el \<noteq> []) (find_all page tg wanted))"
    by (simp add: extract_reviews_from_page_def filter_map comp_def)
qed

text \<open>\<open>page_three\<close> has three matching elements, one with whitespace only.\<close>

theorem extracted_texts_nonempty_witness:
  "length (find_all page_three ''span'' [(''data-hook'', ''review-body'')]) = 3 \<and>
   length (extract_reviews_from_page (Some page_three)) = 2"
proof -
  have h: "1 < length selectors \<and> selectors ! 1 = (''span'', [(''data-hook'', ''review-body'')]) \<and>
      find_all page_three ''span'' [(''data-hook'', ''review-body'')] \<noteq> [] \<and>
      (\<forall>j<1. find_all page_three (fst (selectors ! j)) (snd (selectors ! j)) = [])"
    by (simp add: page_three_def tree_eval)
  have "length (extract_reviews_from_page (Some page_three)) =
        length (filter (\<lambda>el. element_text ''span'' el \<noteq> [])
          (find_all page_three ''span'' [(''data-hook'', ''review-body'')]))"
    using extracted_texts_nonempty[of _ 1 "''span''" "[(''data-hook'', ''review-body'')]" page_three] h
    by blast
  also have "\<dots> = 2"
    by (simp add: page_three_def tree_eval)
  finally have "length (extract_reviews_from_page (Some page_three)) = 2" .
  moreover have "length (find_all page_three ''span'' [(''data-hook'', ''review-body'')]) = 3"
    by (simp add: page_three_def tree_eval)
  ultimately show ?thesis by simp
qed

section \<open>Properties of next-page discovery\<close>





lemma scan_next_links_no_href:
  assumes "\<forall>l \<in> set before. \<not> sublist ''Next'' (get_text l)"
    and "sublist ''Next'' (get_text link)"
    and "get_attr link ''href'' = None"
  shows "scan_next_links join (before @ link # rest) = Inl KeyError"
  using assms
proof (induction before)
  case Nil
  then have "get_text link \<noteq> []" by auto
  with Nil show ?case by simp
next
  case (Cons l before)
  then show ?case by simp
qed



text \<open>
  Claim C2. There is a page on which next-page discovery raises: when the first method
  finds no link, the pagination bar is found, and the first of its links whose text
  contains \<open>Next\<close> has no href attribute, the indexing of the link raises
  \<open>KeyError\<close>, whatever the resolver.
\<close>

theorem next_link_without_href_raises:
  assumes "next_button_href soup = None"
    and "find_first soup ''div'' [(''id'', ''cm_cr-pagination_bar'')] = Some pagination"
    and "find_all pagination ''a'' [(''class'', ''a-link-normal'')] = before @ link # rest"
    and "\<forall>l \<in> set before. \<not> sublist ''Next'' (get_text l)"
    and "sublist ''Next'' (get_text link)"
    and "get_attr link ''href'' = None"
  shows "find_next_page_url join (Some soup) = Inl KeyError"
  using assms(1-3) scan_next_links_no_href[OF assms(4-6)]
  by (simp add: find_next_page_url_def)

text \<open>\<open>page_no_href\<close> is such a page.\<close>

theorem next_link_without_href_raises_witness:
  "find_next_page_url example_join (Some page_no_href) = Inl KeyError"
proof -
  let ?bar = "Tag ''div'' [(''id'', ''cm_cr-pagination_bar'')]
          [Tag ''a'' [(''class'', ''a-link-normal''), (''href'', ''/p/1'')] [Text ''Previous''],
           Tag ''a'' [(''class'', ''a-link-normal disabled'')] [Text ''Next page'']]"
  have h1: "next_button_href page_no_href = None"
    by (simp add: page_no_href_def next_button_href_def tree_eval)
  have h2: "find_first page_no_href ''div'' [(''id'', ''cm_cr-pagination_bar'')] = Some ?bar"
    by (simp add: page_no_href_def tree_eval)
  have h3: "find_all ?bar ''a'' [(''class'', ''a-link-normal'')] =
      [Tag ''a'' [(''class'', ''a-link-normal''), (''href'', ''/p/1'')] [Text ''Previous'']]
      @ Tag ''a'' [(''class'', ''a-link-normal disabled'')] [Text ''Next page''] # []"
    by (simp add: tree_eval)
  have h4: "\<forall>l \<in> set [Tag ''a'' [(''class'', ''a-link-normal''), (''href'', ''/p/1'')] [Text ''Previous'']].
      \<not> sublist ''Next'' (get_text l)"
    by (simp add: sublist_Cons_right)
  have h5: "sublist ''Next'' (get_text (Tag ''a'' [(''class'', ''a-link-normal disabled'')] [Text ''Next page'']))"
    by (simp add: sublist_Cons_right)
  have h6: "get_attr (Tag ''a'' [(''class'', ''a-link-normal disabled'')] [Text ''Next page'']) ''href'' = None"
    by (simp add: get_attr_def)
  show ?thesis by (rule next_link_without_href_raises[OF h1 h2 h3 h4 h5 h6])
qed

section \<open>The locators that next-page discovery returns\<close>













section \<open>Properties of the crawl loop\<close>

lemma loop_body_fetched:
  "fetched (step_state (loop_body w c)) = fetched c @ [current_url c]"
  by (simp add: loop_body_def Let_def split: option.splits sum.splits)

lemma loop_body_collected:
  "collected (step_state (loop_body w c)) =
   collected c @
     (case fetch_page w (length (fetched c)) (current_url c) of
        None \<Rightarrow> []
      | Some soup \<Rightarrow> extract_reviews_from_page (Some soup))"
  by (simp add: loop_body_def Let_def split: option.splits sum.splits)

lemma scrape_loop_exit:
  "\<not> (current_url c \<noteq> [] \<and> page_num c \<le> mp) \<Longrightarrow> scrape_loop w mp c = (c, None)"
  by (subst scrape_loop.simps) auto

lemma scrape_loop_enter:
  "current_url c \<noteq> [] \<Longrightarrow> page_num c \<le> mp \<Longrightarrow>
   scrape_loop w mp c =
     (case loop_body w c of
        Continue c' \<Rightarrow> scrape_loop w mp c'
      | Break c' \<Rightarrow> (c', None)
      | Raise c' e \<Rightarrow> (c', Some e))"
  by (subst scrape_loop.simps) simp

lemma scrape_loop_fetched_bound:
  "length (fetched (fst (scrape_loop w mp c))) \<le> length (fetched c) + nat (mp + 1 - page_num c)"
proof (induction w mp c rule: scrape_loop.induct)
  case (1 w mp c)
  show ?case
  proof (cases "current_url c \<noteq> [] \<and> page_num c \<le> mp")
    case False
    then show ?thesis by (simp add: scrape_loop_exit)
  next
    case True
    have one: "fetched (step_state (loop_body w c)) = fetched c @ [current_url c]"
      by (rule loop_body_fetched)
    show ?thesis
    proof (cases "loop_body w c")
      case (Continue c')
      from "1.IH"[OF True Continue]
      have "length (fetched (fst (scrape_loop w mp c'))) \<le>
            length (fetched c') + nat (mp + 1 - page_num c')" .
      moreover have "page_num c' = page_num c + 1"
        using Continue by (rule loop_body_Continue_page_num)
      moreover have "length (fetched c') = length (fetched c) + 1"
        using one Continue by simp
      ultimately show ?thesis using True Continue by (simp add: scrape_loop_enter) arith
    next
      case (Break c')
      with one True show ?thesis by (simp add: scrape_loop_enter) arith
    next
      case (Raise c' e)
      with one True show ?thesis by (simp add: scrape_loop_enter) arith
    qed
  qed
qed

lemma scrape_loop_collected_prefix:
  "prefix (collected c) (collected (fst (scrape_loop w mp c)))"
proof (induction w mp c rule: scrape_loop.induct)
  case (1 w mp c)
  show ?case
  proof (cases "current_url c \<noteq> [] \<and> page_num c \<le> mp")
    case False
    then show ?thesis by (simp add: scrape_loop_exit)
  next
    case True
    have one: "prefix (collected c) (collected (step_state (loop_body w c)))"
      by (simp add: loop_body_collected)
    show ?thesis
    proof (cases "loop_body w c")
      case (Continue c')
      from "1.IH"[OF True Continue] one Continue
      have "prefix (collected c) (collected (fst (scrape_loop w mp c')))"
        by (auto intro: prefix_order.trans)
      with True Continue show ?thesis by (simp add: scrape_loop_enter)
    next
      case (Break c')
      with one True show ?thesis by (simp add: scrape_loop_enter)
    next
      case (Raise c' e)
      with one True show ?thesis by (simp add: scrape_loop_enter)
    qed
  qed
qed

lemma scrape_loop_fetched_prefix:
  "prefix (fetched c) (fetched (fst (scrape_loop w mp c)))"
proof (induction w mp c rule: scrape_loop.induct)
  case (1 w mp c)
  show ?case
  proof (cases "current_url c \<noteq> [] \<and> page_num c \<le> mp")
    case False
    then show ?thesis by (simp add: scrape_loop_exit)
  next
    case True
    have one: "prefix (fetched c) (fetched (step_state (loop_body w c)))"
      by (simp add: loop_body_fetched)
    show ?thesis
    proof (cases "loop_body w c")
      case (Continue c')
      from "1.IH"[OF True Continue] one Continue
      have "prefix (fetched c) (fetched (fst (scrape_loop w mp c')))"
        by (auto intro: prefix_order.trans)
      with True Continue show ?thesis by (simp add: scrape_loop_enter)
    next
      case (Break c')
      with one True show ?thesis by (simp add: scrape_loop_enter)
    next
      case (Raise c' e)
      with one True show ?thesis by (simp add: scrape_loop_enter)
    qed
  qed
qed

lemmas crawl_eval =
  scrape_def start_def init_def scrape_result_def loop_body_def fetch_page_def
  find_next_page_url_def next_button_href_def example_join_def is_absolute_def site_root_def
  is_alpha_def scheme_char_def

lemma two_page_crawl:
  "scrape two_page_world (init ''B0'' 2 (3, 7)) =
     (\<lparr>current_url = ''https://www.amazon.com/product-reviews/B0?pageNumber=2'',
       page_num = 2,
       collected = [''Works well'', ''Stopped working''],
       fetched = [''https://www.amazon.com/product-reviews/B0'',
                  ''https://www.amazon.com/product-reviews/B0?pageNumber=2'']\<rparr>, None)"
  by (simp add: scrape_loop.simps two_page_world_def page_one_def page_last_def crawl_eval tree_eval)

text \<open>
  Claim C6. With \<open>max_pages = N\<close> for a positive \<open>N\<close>, the loop of \<open>scrape\<close> ends (it
  is a total function, by the measure \<open>max_pages + 1 - page_num\<close>) and requests at most
  \<open>N\<close> pages, whether it ends by its condition, by a \<open>break\<close> or by an exception.
\<close>

theorem fetch_attempts_bounded:
  assumes "0 < N" and "max_pages s = N"
  shows "length (fetched (fst (scrape w s))) \<le> nat N"
  using scrape_loop_fetched_bound[of w N "start s"] assms
  by (simp add: scrape_def start_def)

text \<open>A crawl of two pages with \<open>max_pages = 2\<close> requests two pages.\<close>

theorem fetch_attempts_bounded_witness:
  "length (fetched (fst (scrape two_page_world (init ''B0'' 2 (3, 7))))) = 2 \<and>
   length (fetched (fst (scrape two_page_world (init ''B0'' 2 (3, 7))))) \<le> nat 2"
proof -
  have h1: "(0::int) < 2" by simp
  have h2: "max_pages (init ''B0'' 2 (3, 7)) = 2" by (simp add: init_def)
  have b: "length (fetched (fst (scrape two_page_world (init ''B0'' 2 (3, 7))))) \<le> nat 2"
    by (rule fetch_attempts_bounded[OF h1 h2])
  have "length (fetched (fst (scrape two_page_world (init ''B0'' 2 (3, 7))))) = 2"
    by (simp add: two_page_crawl)
  then show ?thesis using b by (rule conjI)
qed

text \<open>
  Claim C10. The accumulated review list only grows: the list before a run of the loop
  body is a prefix of the list after it, which is the old list followed by the reviews of
  the page; so the list at any point of the loop is a prefix of the list the loop ends
  with, and the list the object had before \<open>scrape\<close> is a prefix of the final one.
\<close>

theorem reviews_only_grow:
  "prefix (collected c) (collected (step_state (loop_body w c))) \<and>
   collected (step_state (loop_body w c)) =
     collected c @
       (case fetch_page w (length (fetched c)) (current_url c) of
          None \<Rightarrow> []
        | Some soup \<Rightarrow> extract_reviews_from_page (Some soup)) \<and>
   prefix (collected c) (collected (fst (scrape_loop w mp c))) \<and>
   prefix (reviews s) (collected (fst (scrape w s)))"
proof (intro conjI)
  show "prefix (collected c) (collected (step_state (loop_body w c)))"
    by (simp add: loop_body_collected)
  show "collected (step_state (loop_body w c)) =
     collected c @
       (case fetch_page w (length (fetched c)) (current_url c) of
          None \<Rightarrow> []
        | Some soup \<Rightarrow> extract_reviews_from_page (Some soup))"
    by (rule loop_body_collected)
  show "prefix (collected c) (collected (fst (scrape_loop w mp c)))"
    by (rule scrape_loop_collected_prefix)
  show "prefix (reviews s) (collected (fst (scrape w s)))"
    using scrape_loop_collected_prefix[of "start s" w "max_pages s"]
    by (simp add: scrape_def start_def)
qed

lemma prefix_same_length: "prefix xs ys \<Longrightarrow> length xs = length ys \<Longrightarrow> xs = ys"
  by (auto simp: prefix_def)

lemma loop_body_absent:
  "fetch_page w (length (fetched c)) (current_url c) = None \<Longrightarrow>
   loop_body w c = Break (c\<lparr>fetched := fetched c @ [current_url c]\<rparr>)"
  by (simp add: loop_body_def)

lemma loop_body_not_Break_fetch:
  "loop_body w c = Continue c' \<or> loop_body w c = Raise c' e \<Longrightarrow>
   fetch_page w (length (fetched c)) (current_url c) \<noteq> None"
  by (auto simp: loop_body_def Let_def split: option.splits)

lemma scrape_loop_first_fetch:
  assumes "current_url c \<noteq> []" and "page_num c \<le> mp"
  shows "prefix (fetched c @ [current_url c]) (fetched (fst (scrape_loop w mp c)))"
proof (cases "loop_body w c")
  case (Continue c')
  have "fetched c' = fetched c @ [current_url c]"
    using loop_body_fetched[of w c] Continue by simp
  with scrape_loop_fetched_prefix[of c' w mp] assms Continue show ?thesis
    by (simp add: scrape_loop_enter)
next
  case (Break c')
  with loop_body_fetched[of w c] assms show ?thesis by (simp add: scrape_loop_enter)
next
  case (Raise c' e)
  with loop_body_fetched[of w c] assms show ?thesis by (simp add: scrape_loop_enter)
qed

lemma scrape_loop_absent_last:
  "fetched (fst (scrape_loop w mp c)) = fs @ [url] \<Longrightarrow> length (fetched c) \<le> length fs \<Longrightarrow>
   fetch_page w (length fs) url = None \<Longrightarrow> snd (scrape_loop w mp c) = None"
proof (induction w mp c rule: scrape_loop.induct)
  case (1 w mp c)
  show ?case
  proof (cases "current_url c \<noteq> [] \<and> page_num c \<le> mp")
    case False
    then show ?thesis by (simp add: scrape_loop_exit)
  next
    case True
    have one: "fetched (step_state (loop_body w c)) = fetched c @ [current_url c]"
      by (rule loop_body_fetched)
    show ?thesis
    proof (cases "loop_body w c")
      case (Break c')
      with True show ?thesis by (simp add: scrape_loop_enter)
    next
      case (Raise c' e)
      with True one "1.prems"(1) have "fs = fetched c" and "url = current_url c"
        by (simp_all add: scrape_loop_enter)
      with "1.prems"(3) loop_body_not_Break_fetch[of w c c' e] Raise show ?thesis by simp
    next
      case (Continue c')
      have fc': "fetched c' = fetched c @ [current_url c]" using one Continue by simp
      have res: "scrape_loop w mp c = scrape_loop w mp c'"
        using True Continue by (simp add: scrape_loop_enter)
      show ?thesis
      proof (cases "length (fetched c') \<le> length fs")
        case True
        with "1.IH"[OF \<open>current_url c \<noteq> [] \<and> page_num c \<le> mp\<close> Continue] "1.prems" res
        show ?thesis by simp
      next
        case False
        have "prefix (fetched c') (fs @ [url])"
          using scrape_loop_fetched_prefix[of c' w mp] "1.prems"(1) res by simp
        moreover have "length (fetched c') = length (fs @ [url])"
          using False "1.prems"(2) fc' by simp
        ultimately have "fetched c' = fs @ [url]"
          by (rule prefix_same_length)
        with fc' have "fs = fetched c" and "url = current_url c" by simp_all
        with "1.prems"(3) loop_body_not_Break_fetch[of w c c'] Continue show ?thesis by simp
      qed
    qed
  qed
qed


lemma fetch_page_None_iff:
  "fetch_page w n url = None \<longleftrightarrow>
   session_get w n url = Raised \<or>
   (\<exists>status_code soup. session_get w n url = Response status_code soup \<and> status_code \<noteq> 200)"
  by (auto simp: fetch_page_def split: fetch_outcome.splits)

lemma limited_crawl:
  "scrape limited_world (init ''B0'' 5 (3, 7)) =
     (\<lparr>current_url = ''https://www.amazon.com/product-reviews/B0?pageNumber=2'',
       page_num = 2,
       collected = [''Works well''],
       fetched = [''https://www.amazon.com/product-reviews/B0'',
                  ''https://www.amazon.com/product-reviews/B0?pageNumber=2'']\<rparr>, None)"
  by (simp add: scrape_loop.simps limited_world_def page_one_def crawl_eval tree_eval)

text \<open>
  Claim C4. A request gives an absence signal exactly when it raises or its status is
  not 200 (429 and 503 among them). When the request of a run of the loop body gives an
  absence signal, the loop ends there: the review list is the one accumulated before, and
  no exception leaves the loop. A crawl whose last request gave an absence signal returns
  its review list without an exception. In particular, when the first page of a crawl with
  \<open>max_pages = 5\<close> is fetched and the request for the second page is answered with
  status 429 or 503, \<open>scrape\<close> returns the reviews it had and those of the first page.
\<close>

theorem absent_fetch_ends_crawl:
  "(fetch_page w n url = None \<longleftrightarrow>
      session_get w n url = Raised \<or>
      (\<exists>status_code soup. session_get w n url = Response status_code soup \<and> status_code \<noteq> 200)) \<and>
   (current_url c \<noteq> [] \<and> page_num c \<le> mp \<and>
    fetch_page w (length (fetched c)) (current_url c) = None \<longrightarrow>
      scrape_loop w mp c = (c\<lparr>fetched := fetched c @ [current_url c]\<rparr>, None)) \<and>
   (fetched (fst (scrape w s)) = fs @ [last_url] \<and> fetch_page w (length fs) last_url = None \<longrightarrow>
      scrape_result w s = Inr (collected (fst (scrape w s)))) \<and>
   (max_pages s = 5 \<and> base_url s \<noteq> [] \<and>
    session_get w 0 (base_url s) = Response 200 soup1 \<and>
    find_next_page_url (urljoin w) (Some soup1) = Inr (Some u) \<and> u \<noteq> [] \<and> u \<noteq> base_url s \<and>
    \<not> delay_raises w 0 \<and>
    session_get w 1 u = Response status_code2 soup2 \<and> (status_code2 = 429 \<or> status_code2 = 503) \<longrightarrow>
      scrape_result w s = Inr (reviews s @ extract_reviews_from_page (Some soup1)) \<and>
      fetched (fst (scrape w s)) = [base_url s, u])"
proof (intro conjI impI)
  show "fetch_page w n url = None \<longleftrightarrow>
      session_get w n url = Raised \<or>
      (\<exists>status_code soup. session_get w n url = Response status_code soup \<and> status_code \<noteq> 200)"
    by (rule fetch_page_None_iff)
next
  assume "current_url c \<noteq> [] \<and> page_num c \<le> mp \<and>
    fetch_page w (length (fetched c)) (current_url c) = None"
  then show "scrape_loop w mp c = (c\<lparr>fetched := fetched c @ [current_url c]\<rparr>, None)"
    by (simp add: scrape_loop_enter loop_body_absent)
next
  assume a: "fetched (fst (scrape w s)) = fs @ [last_url] \<and> fetch_page w (length fs) last_url = None"
  have "snd (scrape_loop w (max_pages s) (start s)) = None"
  proof (rule scrape_loop_absent_last)
    show "fetched (fst (scrape_loop w (max_pages s) (start s))) = fs @ [last_url]"
      using a by (simp add: scrape_def)
    show "length (fetched (start s)) \<le> length fs" by (simp add: start_def)
    show "fetch_page w (length fs) last_url = None" using a by simp
  qed
  then show "scrape_result w s = Inr (collected (fst (scrape w s)))"
    by (cases "scrape_loop w (max_pages s) (start s)") (simp add: scrape_result_def scrape_def)
next
  assume a: "max_pages s = 5 \<and> base_url s \<noteq> [] \<and>
    session_get w 0 (base_url s) = Response 200 soup1 \<and>
    find_next_page_url (urljoin w) (Some soup1) = Inr (Some u) \<and> u \<noteq> [] \<and> u \<noteq> base_url s \<and>
    \<not> delay_raises w 0 \<and>
    session_get w 1 u = Response status_code2 soup2 \<and> (status_code2 = 429 \<or> status_code2 = 503)"
  let ?c1 = "\<lparr>current_url = u, page_num = 2,
              collected = reviews s @ extract_reviews_from_page (Some soup1),
              fetched = [base_url s]\<rparr>"
  have first: "loop_body w (start s) = Continue ?c1"
    using a by (simp add: loop_body_def start_def fetch_page_def)
  have second: "loop_body w ?c1 = Break (?c1\<lparr>fetched := [base_url s, u]\<rparr>)"
    using a by (auto simp: loop_body_def fetch_page_def)
  have "scrape_loop w 5 (start s) = scrape_loop w 5 ?c1"
    using a first by (simp add: scrape_loop_enter start_def)
  also have "\<dots> = (?c1\<lparr>fetched := [base_url s, u]\<rparr>, None)"
    using a second by (simp add: scrape_loop_enter)
  finally have r: "scrape w s = (?c1\<lparr>fetched := [base_url s, u]\<rparr>, None)"
    using a by (simp add: scrape_def)
  show "scrape_result w s = Inr (reviews s @ extract_reviews_from_page (Some soup1))"
    by (simp add: scrape_result_def r)
  show "fetched (fst (scrape w s)) = [base_url s, u]"
    by (simp add: r)
qed

text \<open>
  In \<open>limited_world\<close> the second request of a crawl with \<open>max_pages = 5\<close> is answered
  with status 429: the crawl returns the one review of the first page.
\<close>

theorem absent_fetch_ends_crawl_witness:
  "scrape_result limited_world (init ''B0'' 5 (3, 7)) = Inr [''Works well''] \<and>
   extract_reviews_from_page (Some page_one) = [''Works well'']"
proof -
  let ?s = "init ''B0'' 5 (3, 7)"
  let ?u = "''https://www.amazon.com/product-reviews/B0?pageNumber=2''"
  have h: "max_pages ?s = 5 \<and> base_url ?s \<noteq> [] \<and>
    session_get limited_world 0 (base_url ?s) = Response 200 page_one \<and>
    find_next_page_url (urljoin limited_world) (Some page_one) = Inr (Some ?u) \<and>
    ?u \<noteq> [] \<and> ?u \<noteq> base_url ?s \<and> \<not> delay_raises limited_world 0 \<and>
    session_get limited_world 1 ?u = Response 429 (Text []) \<and> ((429::int) = 429 \<or> (429::int) = 503)"
    by (simp add: limited_world_def page_one_def crawl_eval tree_eval)
  have "scrape_result limited_world ?s =
        Inr (reviews ?s @ extract_reviews_from_page (Some page_one))"
    using absent_fetch_ends_crawl[of limited_world _ _ _ _ ?s _ _ page_one ?u 429 "Text []"] h
    by blast
  moreover have e: "extract_reviews_from_page (Some page_one) = [''Works well'']"
    by (simp add: page_one_def tree_eval)
  moreover have "reviews ?s = []" by (simp add: init_def)
  ultimately have "scrape_result limited_world ?s = Inr [''Works well'']" by simp
  then show ?thesis using e by (rule conjI)
qed

lemma loop_body_Continue_next:
  assumes "loop_body w c = Continue c'"
    and "fetch_page w (length (fetched c)) (current_url c) = Some soup"
    and "find_next_page_url (urljoin w) (Some soup) = Inr next_url"
  shows "next_url = Some (current_url c') \<and> current_url c' \<noteq> current_url c \<and>
         current_url c' \<noteq> []"
  using assms by (auto simp: loop_body_def Let_def split: option.splits if_splits)

text \<open>
  Claim C7. In a run of the loop body whose page was fetched and whose next-page
  discovery returned: if it returned no locator, or the current locator, the loop ends
  there, with the reviews of the page added and no further request; the body goes on to
  another run only with a locator that differs from the current one, and a further
  request, if one is made, is for that locator.
\<close>

theorem stops_without_new_next_page:
  assumes "current_url c \<noteq> []" and "page_num c \<le> mp"
    and "fetch_page w (length (fetched c)) (current_url c) = Some soup"
    and "find_next_page_url (urljoin w) (Some soup) = Inr next_url"
  shows "(next_url = None \<or> next_url = Some (current_url c) \<longrightarrow>
            scrape_loop w mp c =
              (c\<lparr>fetched := fetched c @ [current_url c],
                 collected := collected c @ extract_reviews_from_page (Some soup)\<rparr>, None)) \<and>
         ((\<exists>c'. loop_body w c = Continue c') \<longrightarrow>
            (\<exists>u. next_url = Some u \<and> u \<noteq> current_url c)) \<and>
         (length (fetched c) + 1 < length (fetched (fst (scrape_loop w mp c))) \<longrightarrow>
            (\<exists>u. next_url = Some u \<and> u \<noteq> current_url c \<and>
                 fetched (fst (scrape_loop w mp c)) ! (length (fetched c) + 1) = u))"
proof (intro conjI impI)
  assume "next_url = None \<or> next_url = Some (current_url c)"
  then have "loop_body w c =
      Break (c\<lparr>fetched := fetched c @ [current_url c],
               collected := collected c @ extract_reviews_from_page (Some soup)\<rparr>)"
    using assms(3,4) by (auto simp: loop_body_def)
  then show "scrape_loop w mp c =
      (c\<lparr>fetched := fetched c @ [current_url c],
         collected := collected c @ extract_reviews_from_page (Some soup)\<rparr>, None)"
    using assms(1,2) by (simp add: scrape_loop_enter)
next
  assume "\<exists>c'. loop_body w c = Continue c'"
  then obtain c' where "loop_body w c = Continue c'" ..
  from loop_body_Continue_next[OF this assms(3,4)]
  show "\<exists>u. next_url = Some u \<and> u \<noteq> current_url c" by blast
next
  assume more: "length (fetched c) + 1 < length (fetched (fst (scrape_loop w mp c)))"
  have one: "fetched (step_state (loop_body w c)) = fetched c @ [current_url c]"
    by (rule loop_body_fetched)
  show "\<exists>u. next_url = Some u \<and> u \<noteq> current_url c \<and>
           fetched (fst (scrape_loop w mp c)) ! (length (fetched c) + 1) = u"
  proof (cases "loop_body w c")
    case (Break c')
    with one more assms(1,2) show ?thesis by (simp add: scrape_loop_enter)
  next
    case (Raise c' e)
    with one more assms(1,2) show ?thesis by (simp add: scrape_loop_enter)
  next
    case (Continue c')
    note nxt = loop_body_Continue_next[OF Continue assms(3,4)]
    have fc': "fetched c' = fetched c @ [current_url c]" using one Continue by simp
    have res: "scrape_loop w mp c = scrape_loop w mp c'"
      using assms(1,2) Continue by (simp add: scrape_loop_enter)
    have enter: "current_url c' \<noteq> [] \<and> page_num c' \<le> mp"
    proof (rule ccontr)
      assume "\<not> (current_url c' \<noteq> [] \<and> page_num c' \<le> mp)"
      then have "scrape_loop w mp c' = (c', None)" by (rule scrape_loop_exit)
      with more res fc' show False by simp
    qed
    then have "prefix (fetched c' @ [current_url c']) (fetched (fst (scrape_loop w mp c)))"
      using scrape_loop_first_fetch[of c' mp w] res by simp
    then obtain zs where
      "fetched (fst (scrape_loop w mp c)) = (fetched c' @ [current_url c']) @ zs"
      by (auto simp: prefix_def)
    then have "fetched (fst (scrape_loop w mp c)) ! (length (fetched c) + 1) = current_url c'"
      using fc' by (simp add: nth_append)
    with nxt show ?thesis by blast
  qed
qed

lemma self_crawl:
  "scrape (constant_world 200 page_self) (init ''B0'' 10 (3, 7)) =
     (\<lparr>current_url = ''https://www.amazon.com/product-reviews/B0'',
       page_num = 1,
       collected = [''Fine''],
       fetched = [''https://www.amazon.com/product-reviews/B0'']\<rparr>, None)"
  by (simp add: scrape_loop.simps constant_world_def page_self_def crawl_eval tree_eval)

text \<open>
  The next link of \<open>page_self\<close> resolves to the locator of the page itself: a crawl
  with \<open>max_pages = 10\<close> makes one request.
\<close>

theorem stops_without_new_next_page_witness:
  "find_next_page_url example_join (Some page_self) =
     Inr (Some ''https://www.amazon.com/product-reviews/B0'') \<and>
   scrape_loop (constant_world 200 page_self) 10 (start (init ''B0'' 10 (3, 7))) =
     (\<lparr>current_url = ''https://www.amazon.com/product-reviews/B0'',
       page_num = 1,
       collected = [''Fine''],
       fetched = [''https://www.amazon.com/product-reviews/B0'']\<rparr>, None)"
proof -
  let ?w = "constant_world 200 page_self"
  let ?c = "start (init ''B0'' 10 (3, 7))"
  let ?u = "''https://www.amazon.com/product-reviews/B0''"
  have h1: "current_url ?c \<noteq> []" by (simp add: start_def init_def)
  have h2: "page_num ?c \<le> 10" by (simp add: start_def)
  have h3: "fetch_page ?w (length (fetched ?c)) (current_url ?c) = Some page_self"
    by (simp add: fetch_page_def constant_world_def)
  have n: "find_next_page_url example_join (Some page_self) = Inr (Some ?u)"
    by (simp add: page_self_def crawl_eval tree_eval)
  then have h4: "find_next_page_url (urljoin ?w) (Some page_self) = Inr (Some ?u)"
    by (simp add: constant_world_def)
  have cur: "Some ?u = Some (current_url ?c)" by (simp add: start_def init_def)
  have "Some ?u = None \<or> Some ?u = Some (current_url ?c) \<longrightarrow>
        scrape_loop ?w 10 ?c =
          (?c\<lparr>fetched := fetched ?c @ [current_url ?c],
              collected := collected ?c @ extract_reviews_from_page (Some page_self)\<rparr>, None)"
    by (rule conjunct1[OF stops_without_new_next_page[OF h1 h2 h3 h4]])
  with cur have "scrape_loop ?w 10 ?c =
          (?c\<lparr>fetched := fetched ?c @ [current_url ?c],
              collected := collected ?c @ extract_reviews_from_page (Some page_self)\<rparr>, None)"
    by blast
  moreover have "extract_reviews_from_page (Some page_self) = [''Fine'']"
    by (simp add: page_self_def tree_eval)
  ultimately have "scrape_loop ?w 10 ?c =
     (\<lparr>current_url = ?u, page_num = 1, collected = [''Fine''], fetched = [?u]\<rparr>, None)"
    by (simp add: start_def init_def)
  with n show ?thesis by (rule conjI)
qed

text \<open>
  Claim C1, as the code has it. The constructor stores a fixed identifier in the object
  whatever identifier it is given, but it builds the starting locator from the identifier
  it is given: with \<open>max_pages\<close> at least 1 the first page requested is the review page
  of that identifier, and crawls for two different identifiers request different pages.
\<close>

theorem stored_identifier_fixed_locator_supplied:
  "product_id (init pid mp dr) = ''B09G9FPHY6'' \<and>
   base_url (init pid mp dr) = ''https://www.amazon.com/product-reviews/'' @ pid \<and>
   (1 \<le> mp \<longrightarrow>
      prefix [''https://www.amazon.com/product-reviews/'' @ pid]
        (fetched (fst (scrape w (init pid mp dr))))) \<and>
   (1 \<le> mp \<and> pid \<noteq> pid' \<longrightarrow>
      fetched (fst (scrape w (init pid mp dr))) \<noteq> fetched (fst (scrape w' (init pid' mp dr'))))"
proof -
  have first: "prefix [''https://www.amazon.com/product-reviews/'' @ p]
        (fetched (fst (scrape v (init p mp d))))" if "1 \<le> mp" for p v d
    using scrape_loop_first_fetch[of "start (init p mp d)" mp v] that
    by (simp add: scrape_def start_def init_def)
  have "fetched (fst (scrape w (init pid mp dr))) \<noteq> fetched (fst (scrape w' (init pid' mp dr')))"
    if mp: "1 \<le> mp" and ne: "pid \<noteq> pid'"
  proof
    assume eq: "fetched (fst (scrape w (init pid mp dr))) = fetched (fst (scrape w' (init pid' mp dr')))"
    from first[OF mp, of pid w dr] obtain zs where
      a: "fetched (fst (scrape w (init pid mp dr))) =
          (''https://www.amazon.com/product-reviews/'' @ pid) # zs"
      by (auto simp: prefix_def)
    from first[OF mp, of pid' w' dr'] obtain zs' where
      b: "fetched (fst (scrape w' (init pid' mp dr'))) =
          (''https://www.amazon.com/product-reviews/'' @ pid') # zs'"
      by (auto simp: prefix_def)
    from eq a b ne show False by simp
  qed
  with first show ?thesis by (simp add: init_def)
qed

lemma crawl_B0BSHF7WHW:
  "fetched (fst (scrape (constant_world 200 page_last) (init ''B0BSHF7WHW'' 10 (3, 7)))) =
   [''https://www.amazon.com/product-reviews/B0BSHF7WHW'']"
  by (simp add: scrape_loop.simps constant_world_def page_last_def crawl_eval tree_eval)

lemma crawl_B09G9FPHY6:
  "fetched (fst (scrape (constant_world 200 page_last) (init ''B09G9FPHY6'' 10 (3, 7)))) =
   [''https://www.amazon.com/product-reviews/B09G9FPHY6'']"
  by (simp add: scrape_loop.simps constant_world_def page_last_def crawl_eval tree_eval)

text \<open>
  The crawl for the identifier of the example usage requests its review page, and so do
  the crawls for other identifiers.
\<close>

theorem stored_identifier_fixed_locator_supplied_witness:
  "product_id (init ''B0BSHF7WHW'' 10 (3, 7)) = ''B09G9FPHY6'' \<and>
   prefix [''https://www.amazon.com/product-reviews/B0BSHF7WHW'']
     (fetched (fst (scrape (constant_world 200 page_last) (init ''B0BSHF7WHW'' 10 (3, 7)))))"
proof -
  note t = stored_identifier_fixed_locator_supplied[of "''B0BSHF7WHW''" 10 "(3, 7)"
      "constant_world 200 page_last" "''B09G9FPHY6''" "constant_world 200 page_last" "(3, 7)"]
  have p: "product_id (init ''B0BSHF7WHW'' 10 (3, 7)) = ''B09G9FPHY6''"
    by (rule conjunct1[OF t])
  have "(1::int) \<le> 10 \<longrightarrow>
      prefix [''https://www.amazon.com/product-reviews/'' @ ''B0BSHF7WHW'']
        (fetched (fst (scrape (constant_world 200 page_last) (init ''B0BSHF7WHW'' 10 (3, 7)))))"
    by (rule conjunct1[OF conjunct2[OF conjunct2[OF t]]])
  then have "prefix [''https://www.amazon.com/product-reviews/B0BSHF7WHW'']
        (fetched (fst (scrape (constant_world 200 page_last) (init ''B0BSHF7WHW'' 10 (3, 7)))))"
    by simp
  with p show ?thesis by (rule conjI)
qed

text \<open>
  The claim as it was stated fails: the crawls for two identifiers, in the same
  environment, request different pages.
\<close>

theorem supplied_identifier_inert_counterexample:
  "fetched (fst (scrape (constant_world 200 page_last) (init ''B0BSHF7WHW'' 10 (3, 7)))) \<noteq>
   fetched (fst (scrape (constant_world 200 page_last) (init ''B09G9FPHY6'' 10 (3, 7))))"
  by (simp add: crawl_B0BSHF7WHW crawl_B09G9FPHY6)

lemma earlier_crawl:
  "scrape two_page_world ((init ''B0'' 2 (3, 7))\<lparr>reviews := [''Earlier'']\<rparr>) =
     (\<lparr>current_url = ''https://www.amazon.com/product-reviews/B0?pageNumber=2'',
       page_num = 2,
       collected = [''Earlier'', ''Works well'', ''Stopped working''],
       fetched = [''https://www.amazon.com/product-reviews/B0'',
                  ''https://www.amazon.com/product-reviews/B0?pageNumber=2'']\<rparr>, None)"
  by (simp add: scrape_loop.simps two_page_world_def page_one_def page_last_def crawl_eval tree_eval)

text \<open>
  A crawl of two pages by an object that holds a review already: the review stays first,
  and the reviews of the two pages follow in order.
\<close>

theorem reviews_only_grow_witness:
  "prefix [''Earlier'']
     (collected (fst (scrape two_page_world ((init ''B0'' 2 (3, 7))\<lparr>reviews := [''Earlier'']\<rparr>)))) \<and>
   collected (fst (scrape two_page_world ((init ''B0'' 2 (3, 7))\<lparr>reviews := [''Earlier'']\<rparr>))) =
     [''Earlier'', ''Works well'', ''Stopped working'']"
proof -
  let ?s = "(init ''B0'' 2 (3, 7))\<lparr>reviews := [''Earlier'']\<rparr>"
  have "prefix (reviews ?s) (collected (fst (scrape two_page_world ?s)))"
    by (rule conjunct2[OF conjunct2[OF conjunct2[OF reviews_only_grow]]])
  then have "prefix [''Earlier''] (collected (fst (scrape two_page_world ?s)))"
    by simp
  moreover have "collected (fst (scrape two_page_world ?s)) =
     [''Earlier'', ''Works well'', ''Stopped working'']"
    by (simp add: earlier_crawl)
  ultimately show ?thesis by (rule conjI)
qed

section \<open>Properties of persistence\<close>

lemma write_reviews_eq:
  "write_reviews i rs f = f @ concat (map (\<lambda>(k, review). review_block k review) (enumerate i rs))"
  by (induction rs arbitrary: i f) simp_all

lemma str_nat_digit: "n < 10 \<Longrightarrow> str_nat n = [''0123456789'' ! n]"
  by (simp add: str_nat.simps)

text \<open>
  Claim C9. When the destination can be opened, \<open>save_to_file\<close> leaves there the
  concatenation of one block per review, numbered from 1, in the order of the review
  list: as many blocks as reviews, the block at position \<open>k\<close> being the block of number
  \<open>k + 1\<close> for the review at position \<open>k\<close>. What the destination held before is gone,
  and no other file changes.
\<close>

theorem save_to_file_blocks:
  assumes "can_open fs filename"
  shows "\<exists>fs' blocks.
           save_to_file fs s filename = Inr fs' \<and>
           files fs' filename = Some (concat blocks) \<and>
           length blocks = length (reviews s) \<and>
           (\<forall>k < length (reviews s). blocks ! k = review_block (k + 1) (reviews s ! k)) \<and>
           (\<forall>other. other \<noteq> filename \<longrightarrow> files fs' other = files fs other)"
proof -
  let ?blocks = "map (\<lambda>(k, review). review_block k review) (enumerate 1 (reviews s))"
  let ?fs' = "fs\<lparr>files := (files fs)(filename \<mapsto> concat ?blocks)\<rparr>"
  have "save_to_file fs s filename = Inr ?fs'"
    using assms by (simp add: save_to_file_def write_reviews_eq)
  moreover have "files ?fs' filename = Some (concat ?blocks)" by simp
  moreover have "length ?blocks = length (reviews s)" by simp
  moreover have "\<forall>k < length (reviews s). ?blocks ! k = review_block (k + 1) (reviews s ! k)"
    by (simp add: nth_enumerate_eq)
  moreover have "\<forall>other. other \<noteq> filename \<longrightarrow> files ?fs' other = files fs other" by simp
  ultimately show ?thesis by blast
qed

text \<open>Two reviews written over a file that held other text.\<close>

theorem save_to_file_blocks_witness:
  "\<exists>fs'. save_to_file example_fs ((init ''B0'' 2 (3, 7))\<lparr>reviews := [''Good'', ''Bad'']\<rparr>)
            ''amazon_reviews.txt'' = Inr fs' \<and>
         files fs' ''amazon_reviews.txt'' =
           Some (''Review 1:'' @ newline @ ''Good'' @ newline @ newline @ replicate 50 CHR ''=''
                   @ newline @ newline
                 @ ''Review 2:'' @ newline @ ''Bad'' @ newline @ newline @ replicate 50 CHR ''=''
                   @ newline @ newline)"
proof -
  let ?s = "(init ''B0'' 2 (3, 7))\<lparr>reviews := [''Good'', ''Bad'']\<rparr>"
  have h: "can_open example_fs ''amazon_reviews.txt''" by (simp add: example_fs_def)
  from save_to_file_blocks[OF h, of ?s] obtain fs' blocks where
    r: "save_to_file example_fs ?s ''amazon_reviews.txt'' = Inr fs'" and
    f: "files fs' ''amazon_reviews.txt'' = Some (concat blocks)" and
    l: "length blocks = length (reviews ?s)" and
    b: "\<forall>k < length (reviews ?s). blocks ! k = review_block (k + 1) (reviews ?s ! k)"
    by blast
  from l have l2: "length blocks = 2" by simp
  from b have "blocks ! 0 = review_block 1 ''Good''" and "blocks ! 1 = review_block 2 ''Bad''"
    by (simp_all add: numeral_2_eq_2)
  with l2 have "blocks = [review_block 1 ''Good'', review_block 2 ''Bad'']"
    by (cases blocks; cases "tl blocks") auto
  with f have "files fs' ''amazon_reviews.txt'' =
      Some (review_block 1 ''Good'' @ review_block 2 ''Bad'')" by simp
  then have "files fs' ''amazon_reviews.txt'' =
           Some (''Review 1:'' @ newline @ ''Good'' @ newline @ newline @ replicate 50 CHR ''=''
                   @ newline @ newline
                 @ ''Review 2:'' @ newline @ ''Bad'' @ newline @ newline @ replicate 50 CHR ''=''
                   @ newline @ newline)"
    by (simp add: review_block_def str_nat_digit)
  with r show ?thesis by blast
qed

end
